theory Spec2Isabelle
  imports Complex_Main "HOL-Library.Word" "HOL-Library.Multiset" "HOL-Library.Log_Nat"
begin

section \<open>Counting bounded cells\<close>

text \<open>
  An element of an R logical vector is stored as a C \<open>int\<close>: \<open>FALSE\<close> is 0, \<open>TRUE\<close> is 1
  and \<open>NA\<close> is the smallest \<open>int\<close>. The C++ test \<open>!has_infinite[i]\<close> holds exactly for
  the value 0, that is for \<open>FALSE\<close>.
\<close>

datatype r_logical = R_FALSE | R_TRUE | R_NA

text \<open>
  The loop of \<open>count_bounded_cells_cpp\<close> visits the elements in index order, so it is a
  recursion over the vector. The counter \<open>cnt\<close> (\<open>count\<close> in the source) and the
  result are a C++ \<open>int\<close>, a 32-bit signed word. On a vector of \<open>2^31\<close> or more elements
  the index and possibly the counter overflow, which C++ leaves undefined; the model lets
  the counter wrap around, and no property below depends on that choice.
\<close>

fun count_loop :: "r_logical list \<Rightarrow> 32 word \<Rightarrow> 32 word" where
  "count_loop [] cnt = cnt"
| "count_loop (h # rest) cnt =
     count_loop rest (if h = R_FALSE then cnt + 1 else cnt)"

definition count_bounded_cells_cpp :: "r_logical list \<Rightarrow> 32 word" where
  "count_bounded_cells_cpp has_infinite = count_loop has_infinite 0"

section \<open>IEEE 754 double precision\<close>

text \<open>
  A C++ \<open>double\<close> is modelled by its value: a NaN (payloads are not distinguished), one
  of the two infinities, the negative zero, or a finite rational, where \<open>Finite 0\<close> is the
  positive zero. Arithmetic is the exact operation on the rationals followed by rounding
  to nearest, ties to even, in the binary64 format (53 significant bits, exponents from
  \<open>-1022\<close> to \<open>1023\<close>, gradual underflow), which is what \<open>+\<close>, \<open>-\<close>, \<open>*\<close>, \<open>/\<close> and
  \<open>std::sqrt\<close> compute in the default rounding mode, each operation rounded on its own
  (no fused multiply-add, no extended precision). The type also holds rationals that no
  \<open>double\<close> represents; the properties below hold for them as well.
\<close>

datatype double = NaN | PInf | NInf | NegZero | Finite rat

definition is_finite :: "double \<Rightarrow> bool" where
  "is_finite d = (case d of Finite _ \<Rightarrow> True | NegZero \<Rightarrow> True | _ \<Rightarrow> False)"

definition is_zero :: "double \<Rightarrow> bool" where
  "is_zero d = (d = Finite 0 \<or> d = NegZero)"

fun signbit :: "double \<Rightarrow> bool" where
  "signbit NaN = False"
| "signbit PInf = False"
| "signbit NInf = True"
| "signbit NegZero = True"
| "signbit (Finite r) = (r < 0)"

text \<open>The rational value of a finite double (only used on finite doubles).\<close>

fun fval :: "double \<Rightarrow> rat" where
  "fval (Finite r) = r"
| "fval _ = 0"

definition infinity :: "bool \<Rightarrow> double" where
  "infinity s = (if s then NInf else PInf)"

definition signed_zero :: "bool \<Rightarrow> double" where
  "signed_zero s = (if s then NegZero else Finite 0)"

definition mk_finite :: "bool \<Rightarrow> rat \<Rightarrow> double" where
  "mk_finite s m = (if m = 0 then signed_zero s else Finite (if s then - m else m))"

text \<open>\<open>floor_log2 q\<close> is the integer \<open>e\<close> with \<open>2^e \<le> q < 2^(e+1)\<close>, for \<open>q > 0\<close>.\<close>

definition floor_log2 :: "rat \<Rightarrow> int" where
  "floor_log2 q =
     (let (a, b) = quotient_of q; d = bitlen a - bitlen b
      in if 2 powi d \<le> q then d else d - 1)"

text \<open>Rounding of an integer-scaled magnitude to the nearest integer, ties to even.\<close>

definition round_half_even :: "rat \<Rightarrow> int" where
  "round_half_even n =
     (let f = \<lfloor>n\<rfloor>; d = n - of_int f
      in if d < 1 / 2 then f
         else if 1 / 2 < d then f + 1
         else if even f then f else f + 1)"

text \<open>
  Rounding of a magnitude \<open>q \<ge> 0\<close> to binary64; \<open>None\<close> is the overflow to infinity.
\<close>

definition round_mag :: "rat \<Rightarrow> rat option" where
  "round_mag q =
     (if q = 0 then Some 0
      else let e = max (floor_log2 q) (- 1022);
               ulp = 2 powi (e - 52);
               m = of_int (round_half_even (q / ulp)) * ulp
           in if 2 powi 1024 \<le> m then None else Some m)"

definition fround :: "bool \<Rightarrow> rat \<Rightarrow> double" where
  "fround s q = (case round_mag q of None \<Rightarrow> infinity s | Some m \<Rightarrow> mk_finite s m)"

fun fneg :: "double \<Rightarrow> double" where
  "fneg NaN = NaN"
| "fneg PInf = NInf"
| "fneg NInf = PInf"
| "fneg NegZero = Finite 0"
| "fneg (Finite r) = (if r = 0 then NegZero else Finite (- r))"

text \<open>\<open>std::abs\<close> clears the sign.\<close>

fun fabs :: "double \<Rightarrow> double" where
  "fabs NaN = NaN"
| "fabs PInf = PInf"
| "fabs NInf = PInf"
| "fabs NegZero = Finite 0"
| "fabs (Finite r) = Finite \<bar>r\<bar>"

text \<open>The comparison \<open>a > b\<close>: false as soon as one side is a NaN; the two zeros are equal.\<close>

definition fgt :: "double \<Rightarrow> double \<Rightarrow> bool" where
  "fgt a b =
     (a \<noteq> NaN \<and> b \<noteq> NaN \<and>
      (if is_finite a \<and> is_finite b then fval b < fval a
       else if is_finite a then b = NInf
       else if is_finite b then a = PInf
       else a = PInf \<and> b = NInf))"

definition flt :: "double \<Rightarrow> double \<Rightarrow> bool" where
  "flt a b = fgt b a"

text \<open>The comparison \<open>a <= b\<close>.\<close>

definition fle :: "double \<Rightarrow> double \<Rightarrow> bool" where
  "fle a b = (a \<noteq> NaN \<and> b \<noteq> NaN \<and> \<not> fgt a b)"

definition fadd :: "double \<Rightarrow> double \<Rightarrow> double" where
  "fadd a b =
     (if a = NaN \<or> b = NaN then NaN
      else if is_finite a \<and> is_finite b then
        (let r = fval a + fval b
         in if r = 0 then signed_zero (signbit a \<and> signbit b) else fround (r < 0) \<bar>r\<bar>)
      else if is_finite a then b
      else if is_finite b then a
      else if a = b then a else NaN)"

definition fsub :: "double \<Rightarrow> double \<Rightarrow> double" where
  "fsub a b = fadd a (fneg b)"

definition fmul :: "double \<Rightarrow> double \<Rightarrow> double" where
  "fmul a b =
     (if a = NaN \<or> b = NaN then NaN
      else if is_finite a \<and> is_finite b then
        fround (signbit a \<noteq> signbit b) (\<bar>fval a\<bar> * \<bar>fval b\<bar>)
      else if is_zero a \<or> is_zero b then NaN
      else infinity (signbit a \<noteq> signbit b))"

definition fdiv :: "double \<Rightarrow> double \<Rightarrow> double" where
  "fdiv a b =
     (if a = NaN \<or> b = NaN then NaN
      else if is_finite a \<and> is_finite b then
        (if is_zero b then (if is_zero a then NaN else infinity (signbit a \<noteq> signbit b))
         else fround (signbit a \<noteq> signbit b) (\<bar>fval a\<bar> / \<bar>fval b\<bar>))
      else if is_finite a then signed_zero (signbit a \<noteq> signbit b)
      else if is_finite b then infinity (signbit a \<noteq> signbit b)
      else NaN)"

text \<open>\<open>std::ceil\<close> is exact; a result of zero keeps the sign of the argument.\<close>

fun fceil :: "double \<Rightarrow> double" where
  "fceil NaN = NaN"
| "fceil PInf = PInf"
| "fceil NInf = NInf"
| "fceil NegZero = NegZero"
| "fceil (Finite r) = (if \<lceil>r\<rceil> = 0 \<and> r < 0 then NegZero else Finite (of_int \<lceil>r\<rceil>))"

text \<open>The integer square root, by the digit recurrence in base 2.\<close>

function isqrt :: "int \<Rightarrow> int" where
  "isqrt n =
     (if n \<le> 0 then 0
      else let r = 2 * isqrt (n div 4)
           in if (r + 1) * (r + 1) \<le> n then r + 1 else r)"
  by pat_completeness auto
termination
  by (relation "measure nat") auto

declare isqrt.simps [simp del]

text \<open>
  The square root of \<open>q > 0\<close>, correctly rounded: \<open>q\<close> is scaled by a power of 4 to at
  least \<open>2^108\<close>, so that its integer square root \<open>s\<close> has two bits more than a
  significand; an inexact root lies strictly between \<open>s\<close> and \<open>s + 1\<close> and rounds as
  \<open>s + 1/2\<close> does.
\<close>

definition sqrt_round :: "rat \<Rightarrow> double" where
  "sqrt_round q =
     (let k = 54 - floor_log2 q div 2;
          scaled = q * 4 powi k;
          s = isqrt \<lfloor>scaled\<rfloor>;
          root = (if of_int (s * s) = scaled then of_int s else of_int s + 1 / 2)
      in fround False (root / 2 powi k))"

text \<open>\<open>std::sqrt\<close>: NaN below zero, and the negative zero is its own root.\<close>

fun fsqrt :: "double \<Rightarrow> double" where
  "fsqrt NaN = NaN"
| "fsqrt PInf = PInf"
| "fsqrt NInf = NaN"
| "fsqrt NegZero = NegZero"
| "fsqrt (Finite r) = (if r < 0 then NaN else if r = 0 then Finite 0 else sqrt_round r)"

text \<open>The conversion of a C++ \<open>int\<close> to \<open>double\<close> is exact.\<close>

definition of_int32 :: "32 word \<Rightarrow> double" where
  "of_int32 i = Finite (of_int (sint i))"

text \<open>
  \<open>std::cos\<close> and \<open>std::sin\<close> come from the platform's mathematical library and are not
  correctly rounded; they are parameters of the model.
\<close>

record libm =
  std_cos :: "double \<Rightarrow> double"
  std_sin :: "double \<Rightarrow> double"

section \<open>Matrices\<close>

text \<open>
  An \<open>n \<times> 2\<close> \<open>NumericMatrix\<close>: its rows, and the column names attached to it (none
  until they are set).
\<close>

record numeric_matrix =
  rows :: "(double \<times> double) list"
  colnames :: "string list"

section \<open>Spiral generation\<close>

datatype error = NegativeLength

text \<open>
  The loop of \<open>generate_spiral_cpp\<close>. The index \<open>i\<close> stays below \<open>num_points\<close>, an
  \<open>int\<close>, so that \<open>i++\<close> does not overflow and the conversion of \<open>i\<close> to \<open>double\<close> is
  exact.
\<close>

function spiral_loop ::
  "libm \<Rightarrow> double \<Rightarrow> double \<Rightarrow> int \<Rightarrow> int \<Rightarrow> (double \<times> double) list
     \<Rightarrow> (double \<times> double) list" where
  "spiral_loop lm angle_start step num_points i points =
     (if i < num_points then
        (let theta = fadd angle_start (fmul (Finite (of_int i)) step);
             sqrt_theta = fsqrt theta
         in spiral_loop lm angle_start step num_points (i + 1)
              (points[nat i := (fmul sqrt_theta (std_cos lm theta),
                                fmul sqrt_theta (std_sin lm theta))]))
      else points)"
  by pat_completeness auto
termination
  by (relation "measure (\<lambda>(lm, angle_start, step, num_points, i, points). nat (num_points - i))")
    auto

declare spiral_loop.simps [simp del]

text \<open>
  \<open>generate_spiral_cpp\<close>. The matrix is allocated with \<open>num_points\<close> rows of zeros; the
  allocation of a matrix with a negative number of rows is refused by R. The
  subtraction \<open>num_points - 1\<close> is on \<open>int\<close> and its result is converted to \<open>double\<close>
  for the division.
\<close>

definition generate_spiral_cpp ::
  "libm \<Rightarrow> double \<Rightarrow> double \<Rightarrow> 32 word \<Rightarrow> error + numeric_matrix" where
  "generate_spiral_cpp lm angle_start angle_end num_points =
     (if sint num_points < 0 then Inl NegativeLength
      else
        let points = replicate (nat (sint num_points)) (Finite 0, Finite 0);
            step = fdiv (fsub angle_end angle_start) (of_int32 (num_points - 1));
            points = spiral_loop lm angle_start step (sint num_points) 0 points
        in Inr \<lparr>rows = points, colnames = [''x'', ''y'']\<rparr>)"

section \<open>Plot limits\<close>

text \<open>
  The loop of \<open>calculate_limits_cpp\<close> reads the rows in index order and carries the
  running maximum \<open>max_abs\<close>.
\<close>

fun limits_loop :: "(double \<times> double) list \<Rightarrow> double \<Rightarrow> double" where
  "limits_loop [] max_abs = max_abs"
| "limits_loop ((x, y) # rest) max_abs =
     (let abs_x = fabs x;
          abs_y = fabs y;
          max_abs = (if fgt abs_x max_abs then abs_x else max_abs);
          max_abs = (if fgt abs_y max_abs then abs_y else max_abs)
      in limits_loop rest max_abs)"

text \<open>The result is the \<open>NumericVector\<close> of two elements, as a list.\<close>

definition calculate_limits_cpp :: "numeric_matrix \<Rightarrow> double \<Rightarrow> double list" where
  "calculate_limits_cpp vertices padding =
     (if length (rows vertices) = 0 then [Finite (- 10), Finite 10]
      else
        let max_abs = limits_loop (rows vertices) (Finite 0);
            limit = fceil (fmul max_abs padding)
        in [fneg limit, limit])"

section \<open>Notions used in the statements and proofs\<close>

text \<open>The absolute values of all coordinates of a sequence of rows, of both columns.\<close>

definition abs_values :: "(double \<times> double) list \<Rightarrow> double set" where
  "abs_values vs = (\<Union>(x, y) \<in> set vs. {fabs x, fabs y})"

text \<open>The results of \<open>std::abs\<close> other than NaN: a sign-free infinity or finite value.\<close>

definition is_abs :: "double \<Rightarrow> bool" where
  "is_abs d = (d = PInf \<or> (\<exists>r\<ge>0. d = Finite r))"

text \<open>A coordinate with NaN replaced by the positive zero.\<close>

definition zero_nan :: "double \<Rightarrow> double" where
  "zero_nan d = (if d = NaN then Finite 0 else d)"

section \<open>Properties of the bounded-cell count\<close>

lemma count_loop_eq:
  "count_loop v c = c + word_of_nat (length (filter (\<lambda>b. b = R_FALSE) v))"
  by (induction v arbitrary: c) simp_all

lemma sint_32_of_nat:
  assumes "n < 2 ^ 31"
  shows "sint (word_of_nat n :: 32 word) = int n"
proof -
  have "sint (word_of_int (int n) :: 32 word) = signed_take_bit 31 (int n)"
    by (simp only: sint_sbintrunc') simp
  also have "\<dots> = int n"
    using assms by (intro signed_take_bit_int_eq_self) simp_all
  finally show ?thesis by simp
qed

text \<open>
  C4 (as amended). For every flag vector of fewer than \<open>2^31\<close> entries,
  \<open>count_bounded_cells_cpp\<close> returns the number of entries equal to \<open>FALSE\<close>, and the
  empty vector yields 0. The function is total and has no other result than the count.
\<close>

theorem count_bounded_cells_cpp_counts_false:
  "(length has_infinite < 2 ^ 31 \<longrightarrow>
      sint (count_bounded_cells_cpp has_infinite)
        = int (length (filter (\<lambda>b. b = R_FALSE) has_infinite)))
   \<and> count_bounded_cells_cpp [] = 0"
proof -
  have "sint (count_bounded_cells_cpp has_infinite)
      = int (length (filter (\<lambda>b. b = R_FALSE) has_infinite))"
    if "length has_infinite < 2 ^ 31"
  proof -
    have "length (filter (\<lambda>b. b = R_FALSE) has_infinite) \<le> length has_infinite"
      by (rule length_filter_le)
    with that have "length (filter (\<lambda>b. b = R_FALSE) has_infinite) < 2 ^ 31"
      by linarith
    then show ?thesis
      by (simp add: count_bounded_cells_cpp_def count_loop_eq sint_32_of_nat)
  qed
  then show ?thesis
    by (simp add: count_bounded_cells_cpp_def)
qed

theorem count_bounded_cells_cpp_counts_false_witness:
  "length [R_FALSE, R_FALSE, R_TRUE] < 2 ^ 31
   \<and> sint (count_bounded_cells_cpp [R_FALSE, R_FALSE, R_TRUE]) = 2
   \<and> sint (count_bounded_cells_cpp [R_TRUE, R_TRUE]) = 0
   \<and> sint (count_bounded_cells_cpp [R_NA, R_FALSE]) = 1"
  using count_bounded_cells_cpp_counts_false [of "[R_FALSE, R_FALSE, R_TRUE]"]
    count_bounded_cells_cpp_counts_false [of "[R_TRUE, R_TRUE]"]
    count_bounded_cells_cpp_counts_false [of "[R_NA, R_FALSE]"]
  by simp

text \<open>
  C4 as written fails on a vector with \<open>2^31\<close> entries \<open>FALSE\<close>: the result is a C++
  \<open>int\<close>, which is below \<open>2^31\<close> whatever the loop does.
\<close>

theorem count_bounded_cells_cpp_int_range_counterexample:
  "sint (count_bounded_cells_cpp (replicate (2 ^ 31) R_FALSE))
     \<noteq> int (length (filter (\<lambda>b. b = R_FALSE) (replicate (2 ^ 31) R_FALSE)))"
proof -
  have "sint (count_bounded_cells_cpp (replicate (2 ^ 31) R_FALSE)) < 2 ^ 31"
    using sint_lt [of "count_bounded_cells_cpp (replicate (2 ^ 31) R_FALSE)"] by simp
  moreover have "filter (\<lambda>b. b = R_FALSE) (replicate (2 ^ 31) R_FALSE)
      = replicate (2 ^ 31) R_FALSE"
    by (rule filter_True) simp
  ultimately show ?thesis by simp
qed

section \<open>Properties of the rounding\<close>

text \<open>\<open>floor_log2\<close> is the binary exponent of a positive rational.\<close>

lemma bitlen_powi_bounds:
  assumes "0 < (a::int)"
  shows "(2::rat) powi (bitlen a - 1) \<le> of_int a" and "(of_int a :: rat) < 2 powi bitlen a"
proof -
  have b: "2 ^ nat (bitlen a - 1) \<le> a" "a < 2 ^ nat (bitlen a)"
    using bitlen_bounds [OF assms] by simp_all
  have pos: "0 \<le> bitlen a - 1"
    using assms by (simp add: bitlen_alt_def)
  have "(of_int (2 ^ nat (bitlen a - 1)) :: rat) \<le> of_int a"
    using b(1) by (simp only: of_int_le_iff)
  then show "(2::rat) powi (bitlen a - 1) \<le> of_int a"
    using pos by (simp add: power_int_def)
  have "(of_int a :: rat) < of_int (2 ^ nat (bitlen a))"
    using b(2) by (simp only: of_int_less_iff)
  then show "(of_int a :: rat) < 2 powi bitlen a"
    using pos by (simp add: power_int_def)
qed

lemma floor_log2_bounds:
  assumes "0 < q"
  shows "2 powi floor_log2 q \<le> q \<and> q < 2 powi (floor_log2 q + 1)"
proof -
  obtain a b where ab: "quotient_of q = (a, b)" by (cases "quotient_of q")
  have b: "0 < b" using ab by (rule quotient_of_denom_pos)
  have q: "q = of_int a / of_int b" using ab by (rule quotient_of_div)
  have a: "0 < a" using assms b by (simp add: q zero_less_divide_iff)
  define d where "d = bitlen a - bitlen b"
  note A = bitlen_powi_bounds [OF a] and B = bitlen_powi_bounds [OF b]
  have Bpos: "(0::rat) < of_int b" using b by simp
  have "q < 2 powi bitlen a / 2 powi (bitlen b - 1)"
    unfolding q using A(2) B(1) a
    by (intro frac_less) simp_all
  also have "\<dots> = 2 powi (d + 1)"
    by (simp add: d_def power_int_diff [symmetric] algebra_simps)
  finally have up: "q < 2 powi (d + 1)" .
  have "2 powi (bitlen a - 1) / 2 powi bitlen b < q"
    unfolding q using A(1) B(2) Bpos
    by (intro frac_less2) simp_all
  moreover have "(2::rat) powi (bitlen a - 1) / 2 powi bitlen b = 2 powi (d - 1)"
    by (simp add: d_def power_int_diff [symmetric] algebra_simps)
  ultimately have low: "2 powi (d - 1) < q" by simp
  have fl: "floor_log2 q = (if 2 powi d \<le> q then d else d - 1)"
    by (simp add: floor_log2_def ab d_def Let_def)
  show ?thesis
    using up low by (auto simp: fl)
qed

lemma round_half_even_nearest: "\<bar>of_int (round_half_even n) - n\<bar> \<le> 1 / 2"
proof -
  have "of_int \<lfloor>n\<rfloor> \<le> n" "n < of_int \<lfloor>n\<rfloor> + 1"
    by linarith+
  then show ?thesis
    by (auto simp: round_half_even_def Let_def)
qed

lemma round_half_even_mono_bound:
  assumes "n \<le> of_int k"
  shows "round_half_even n \<le> k"
proof -
  have "\<lfloor>n\<rfloor> \<le> k" using assms by (simp add: floor_le_iff)
  moreover have "\<lfloor>n\<rfloor> = k \<Longrightarrow> n = of_int k"
    using assms by (metis of_int_floor_le order_antisym)
  ultimately show ?thesis
    by (cases "\<lfloor>n\<rfloor> = k") (auto simp: round_half_even_def Let_def)
qed

text \<open>
  A rounded magnitude is a multiple of the unit in the last place with a significand of
  at most \<open>2^53\<close>, and it is within half a unit of the exact value.
\<close>

lemma round_mag_nearest:
  assumes "0 < q" and "round_mag q = Some m"
  defines "ulp \<equiv> 2 powi (max (floor_log2 q) (- 1022) - 52)"
  shows "\<exists>n. 0 \<le> n \<and> n \<le> 2 ^ 53 \<and> m = of_int n * ulp" and "\<bar>m - q\<bar> \<le> ulp / 2"
proof -
  define n where "n = round_half_even (q / ulp)"
  have ulp: "0 < ulp" by (simp add: ulp_def)
  have m: "m = of_int n * ulp"
    using assms(1,2) by (simp add: round_mag_def Let_def ulp_def n_def split: if_splits)
  have "q < 2 powi (max (floor_log2 q) (- 1022) + 1)"
  proof -
    have "q < 2 powi (floor_log2 q + 1)" using floor_log2_bounds [OF assms(1)] by simp
    also have "\<dots> \<le> 2 powi (max (floor_log2 q) (- 1022) + 1)"
      by (intro power_int_increasing) simp_all
    finally show ?thesis .
  qed
  also have "\<dots> = 2 ^ 53 * ulp"
    by (simp add: ulp_def power_int_diff power_int_add)
  finally have "q / ulp < 2 ^ 53" using ulp by (simp add: pos_divide_less_eq)
  then have "q / ulp \<le> of_int (2 ^ 53)" by simp
  then have "n \<le> 2 ^ 53" unfolding n_def by (rule round_half_even_mono_bound)
  moreover have "0 \<le> n"
    unfolding n_def using assms(1) ulp by (auto simp: round_half_even_def Let_def)
  ultimately show "\<exists>n. 0 \<le> n \<and> n \<le> 2 ^ 53 \<and> m = of_int n * ulp"
    using m by blast
  have "m - q = (of_int n - q / ulp) * ulp"
    using ulp by (simp add: m left_diff_distrib)
  then have "\<bar>m - q\<bar> = \<bar>of_int n - q / ulp\<bar> * ulp"
    using ulp by (simp add: abs_mult)
  also have "\<dots> \<le> 1 / 2 * ulp"
    unfolding n_def using ulp round_half_even_nearest [of "q / ulp"]
    by (intro mult_right_mono) simp_all
  finally show "\<bar>m - q\<bar> \<le> ulp / 2" by simp
qed

text \<open>\<open>isqrt\<close> is the integer square root.\<close>

lemma isqrt_bounds:
  "0 \<le> n \<Longrightarrow> 0 \<le> isqrt n \<and> isqrt n * isqrt n \<le> n \<and> n < (isqrt n + 1) * (isqrt n + 1)"
proof (induction n rule: isqrt.induct)
  case (1 n)
  show ?case
  proof (cases "n \<le> 0")
    case True
    then have "isqrt n = 0" by (subst isqrt.simps) simp
    with True "1.prems" show ?thesis by simp
  next
    case False
    define s where "s = isqrt (n div 4)"
    have ih: "0 \<le> s" "s * s \<le> n div 4" "n div 4 < (s + 1) * (s + 1)"
      using "1.IH" [OF False] "1.prems" by (simp_all add: s_def)
    have lo: "(2 * s) * (2 * s) \<le> n"
    proof -
      have "4 * (s * s) \<le> 4 * (n div 4)" using ih(2) by simp
      also have "\<dots> \<le> n" by simp
      finally show ?thesis by (simp add: algebra_simps)
    qed
    have hi: "n < (2 * s + 2) * (2 * s + 2)"
    proof -
      have "n div 4 + 1 \<le> (s + 1) * (s + 1)" using ih(3) by simp
      then have "4 * (n div 4) + 4 \<le> 4 * ((s + 1) * (s + 1))" by simp
      moreover have "n < 4 * (n div 4) + 4" by simp
      ultimately show ?thesis by (simp add: algebra_simps)
    qed
    have eq: "isqrt n = (if (2 * s + 1) * (2 * s + 1) \<le> n then 2 * s + 1 else 2 * s)"
      using False by (subst isqrt.simps) (simp add: Let_def s_def)
    show ?thesis
      using ih(1) lo hi by (auto simp: eq algebra_simps)
  qed
qed

lemma round_half_even_of_int: "round_half_even (of_int j) = j"
  by (simp add: round_half_even_def)

lemma bitlen_1: "bitlen 1 = 1"
  by code_simp

lemma floor_log2_of_int:
  assumes "0 < k"
  shows "floor_log2 (of_int k) = bitlen k - 1"
proof -
  have "2 ^ nat (bitlen k - 1) \<le> k"
    using bitlen_bounds [OF assms] by simp
  then have "(2::rat) ^ nat (bitlen k - 1) \<le> of_int k"
    by (metis of_int_le_iff of_int_numeral of_int_power)
  moreover have "0 \<le> bitlen k - 1"
    using assms by (simp add: bitlen_alt_def)
  ultimately have "(2::rat) powi (bitlen k - 1) \<le> of_int k"
    by (simp add: power_int_def)
  then show ?thesis
    by (simp add: floor_log2_def quotient_of_int bitlen_1)
qed

text \<open>Integers below \<open>2^53\<close> are representable: rounding leaves them unchanged.\<close>

lemma round_mag_of_int:
  assumes "0 < k" and "k < 2 ^ 53"
  shows "round_mag (of_int k) = Some (of_int k)"
proof -
  define e where "e = bitlen k - 1"
  define s where "s = nat (52 - e)"
  have e0: "0 \<le> e" using assms(1) by (simp add: e_def bitlen_alt_def)
  have "bitlen k \<le> 53" using assms(2) by (simp add: bitlen_le_iff_power)
  then have e52: "e \<le> 52" by (simp add: e_def)
  have fl: "floor_log2 (of_int k) = e"
    unfolding e_def using assms(1) by (rule floor_log2_of_int)
  have ulp: "(2::rat) powi (e - 52) = 1 / 2 ^ s"
    using e52 by (simp add: power_int_def s_def inverse_eq_divide power_one_over)
  have "of_int k / (1 / 2 ^ s) = (of_int (k * 2 ^ s) :: rat)"
    by simp
  then have r: "round_half_even (of_int k / (1 / 2 ^ s)) = k * 2 ^ s"
    by (simp only: round_half_even_of_int)
  have m: "of_int (k * 2 ^ s) * (1 / 2 ^ s) = (of_int k :: rat)"
    by simp
  have "(of_int k :: rat) < 2 ^ 53"
    using assms(2) by (metis of_int_less_iff of_int_numeral of_int_power)
  also have "\<dots> \<le> 2 powi 1024"
    by (simp add: power_int_def)
  finally have small: "\<not> 2 powi 1024 \<le> (of_int k :: rat)" by simp
  have maxe: "max e (- 1022) = e" using e0 by simp
  have ne: "(of_int k :: rat) \<noteq> 0" using assms(1) by simp
  have "round_mag (of_int k)
      = (if 2 powi 1024 \<le> (of_int k :: rat) then None else Some (of_int k))"
    by (simp only: round_mag_def ne if_False Let_def fl maxe ulp r m)
  then show ?thesis using small by simp
qed

section \<open>The arithmetic on known values\<close>

text \<open>
  The quotient \<open>1 / 3\<close> and the square root of 2 are the binary64 values
  \<open>0x3FD5555555555555\<close> and \<open>0x3FF6A09E667F3BCD\<close>; \<open>2^53 + 1\<close> is a tie and rounds to
  the even neighbour.
\<close>

lemma fdiv_one_third: "fdiv (Finite 1) (Finite 3) = Finite (6004799503160661 / 2 ^ 54)"
  by code_simp

lemma fsqrt_two: "fsqrt (Finite 2) = Finite (6369051672525773 / 2 ^ 52)"
  by code_simp

lemma fadd_tie_even: "fadd (Finite (2 ^ 53)) (Finite 1) = Finite (2 ^ 53)"
  by code_simp

lemma fmul_zero_infinity: "fmul (Finite 0) PInf = NaN"
  by (simp add: fmul_def is_finite_def is_zero_def)

lemma fdiv_by_negative_zero: "fdiv (Finite 1) NegZero = NInf"
  by (simp add: fdiv_def is_finite_def is_zero_def infinity_def)

lemma fsub_equal: "fsub (Finite 1) (Finite 1) = Finite 0"
  by (simp add: fsub_def fadd_def is_finite_def signed_zero_def)

lemma fadd_negative_zeros: "fadd NegZero NegZero = NegZero"
  by (simp add: fadd_def is_finite_def signed_zero_def)

lemma fceil_negative_half: "fceil (Finite (- 1 / 2)) = NegZero"
  by code_simp

lemma fgt_zeros: "\<not> fgt (Finite 0) NegZero \<and> \<not> fgt NegZero (Finite 0)"
  by (simp add: fgt_def is_finite_def)

section \<open>Properties of the plot limits\<close>

subsection \<open>The order on doubles and the running maximum\<close>

lemma is_abs_fabs: "fabs x \<noteq> NaN \<Longrightarrow> is_abs (fabs x)"
  by (cases x) (simp_all add: is_abs_def)

lemma fle_refl: "a \<noteq> NaN \<Longrightarrow> fle a a"
  by (cases a) (simp_all add: fle_def fgt_def is_finite_def)

lemma fle_trans: "fle a b \<Longrightarrow> fle b c \<Longrightarrow> fle a c"
  by (cases a; cases b; cases c) (simp_all add: fle_def fgt_def is_finite_def)

lemma fle_total: "a \<noteq> NaN \<Longrightarrow> b \<noteq> NaN \<Longrightarrow> fgt a b \<Longrightarrow> fle b a"
  by (cases a; cases b) (simp_all add: fle_def fgt_def is_finite_def)

lemma fle_antisym_abs: "is_abs a \<Longrightarrow> is_abs b \<Longrightarrow> fle a b \<Longrightarrow> fle b a \<Longrightarrow> a = b"
  by (auto simp: is_abs_def fle_def fgt_def is_finite_def)

lemma fgt_NaN [simp]: "\<not> fgt NaN m" "\<not> fgt m NaN"
  by (simp_all add: fgt_def)

lemma is_abs_not_NaN: "is_abs m \<Longrightarrow> m \<noteq> NaN"
  by (auto simp: is_abs_def)

lemma max_step:
  fixes m x :: double
  assumes "is_abs m"
  defines "m' \<equiv> (if fgt (fabs x) m then fabs x else m)"
  shows "is_abs m'" and "fle m m'" and "fabs x \<noteq> NaN \<Longrightarrow> fle (fabs x) m'"
    and "m' = m \<or> (m' = fabs x \<and> fabs x \<noteq> NaN)"
proof -
  have m: "m \<noteq> NaN" using assms(1) by (rule is_abs_not_NaN)
  show "is_abs m'" using assms(1) by (auto simp: m'_def intro: is_abs_fabs)
  show "fle m m'" using m by (auto simp: m'_def fle_refl intro: fle_total)
  show "fle (fabs x) m'" if "fabs x \<noteq> NaN"
    using that m by (auto simp: m'_def fle_refl) (simp add: fle_def)
  show "m' = m \<or> (m' = fabs x \<and> fabs x \<noteq> NaN)"
    by (auto simp: m'_def)
qed

lemma abs_values_Cons: "abs_values ((x, y) # rest) = {fabs x, fabs y} \<union> abs_values rest"
  by (simp add: abs_values_def)

lemma limits_loop_inv:
  "is_abs m \<Longrightarrow>
     is_abs (limits_loop vs m) \<and> fle m (limits_loop vs m)
     \<and> (\<forall>a\<in>abs_values vs. a \<noteq> NaN \<longrightarrow> fle a (limits_loop vs m))
     \<and> (limits_loop vs m = m \<or> (limits_loop vs m \<in> abs_values vs \<and> limits_loop vs m \<noteq> NaN))"
proof (induction vs arbitrary: m)
  case Nil
  then show ?case by (simp add: abs_values_def fle_refl is_abs_not_NaN)
next
  case (Cons p rest)
  obtain x y where p: "p = (x, y)" by (cases p)
  define m1 where "m1 = (if fgt (fabs x) m then fabs x else m)"
  define m2 where "m2 = (if fgt (fabs y) m1 then fabs y else m1)"
  have loop: "limits_loop (p # rest) m = limits_loop rest m2"
    by (simp add: p m1_def m2_def)
  note s1 = max_step [OF Cons.prems, of x, folded m1_def]
  note s2 = max_step [OF s1(1), of y, folded m2_def]
  note ih = Cons.IH [OF s2(1)]
  let ?M = "limits_loop rest m2"
  have "is_abs ?M" using ih by simp
  moreover have m_le: "fle m ?M" using s1(2) s2(2) ih by (blast intro: fle_trans)
  moreover have "\<forall>a\<in>abs_values (p # rest). a \<noteq> NaN \<longrightarrow> fle a ?M"
  proof (intro ballI impI)
    fix a assume a: "a \<in> abs_values (p # rest)" "a \<noteq> NaN"
    then consider "a = fabs x" | "a = fabs y" | "a \<in> abs_values rest"
      by (auto simp: p abs_values_Cons)
    then show "fle a ?M"
    proof cases
      case 1 then show ?thesis using a s1(3) s2(2) ih by (blast intro: fle_trans)
    next
      case 2 then show ?thesis using a s2(3) ih by (blast intro: fle_trans)
    next
      case 3 then show ?thesis using a ih by blast
    qed
  qed
  moreover have "?M = m \<or> (?M \<in> abs_values (p # rest) \<and> ?M \<noteq> NaN)"
    using ih s1(4) s2(4) by (auto simp: p abs_values_Cons)
  ultimately show ?case by (simp only: loop)
qed

lemma abs_values_fabs: "a \<in> abs_values vs \<Longrightarrow> \<exists>x. a = fabs x"
  by (auto simp: abs_values_def)

lemma is_abs_zero: "is_abs (Finite 0)"
  by (simp add: is_abs_def)

lemma fle_zero_abs: "is_abs a \<Longrightarrow> fle a (Finite 0) \<Longrightarrow> a = Finite 0"
  by (auto simp: is_abs_def fle_def fgt_def is_finite_def)

lemma limits_loop_max:
  fixes vs :: "(double \<times> double) list"
  defines "M \<equiv> limits_loop vs (Finite 0)"
  shows "is_abs M"
    and "\<forall>a\<in>abs_values vs. a \<noteq> NaN \<longrightarrow> fle a M"
    and "M \<in> abs_values vs \<and> M \<noteq> NaN \<or> M = Finite 0 \<and> abs_values vs \<subseteq> {NaN}"
proof -
  note inv = limits_loop_inv [OF is_abs_zero, of vs, folded M_def]
  show "is_abs M" and up: "\<forall>a\<in>abs_values vs. a \<noteq> NaN \<longrightarrow> fle a M"
    using inv by simp_all
  show "M \<in> abs_values vs \<and> M \<noteq> NaN \<or> M = Finite 0 \<and> abs_values vs \<subseteq> {NaN}"
  proof (cases "abs_values vs \<subseteq> {NaN}")
    case True
    then show ?thesis using inv by auto
  next
    case False
    then obtain a where a: "a \<in> abs_values vs" "a \<noteq> NaN" by auto
    show ?thesis
    proof (cases "M = Finite 0")
      case True
      from a obtain x where "a = fabs x" by (auto dest: abs_values_fabs)
      with a have "is_abs a" by (auto intro: is_abs_fabs)
      moreover have "fle a (Finite 0)" using up a True by auto
      ultimately have "a = Finite 0" by (rule fle_zero_abs)
      then show ?thesis using a True by simp
    next
      case False
      then show ?thesis using inv by auto
    qed
  qed
qed

subsection \<open>The bound is the ceiling of the padded maximum\<close>

text \<open>
  C2 (as amended). For every non-empty point sequence and every padding,
  \<open>calculate_limits_cpp\<close> returns \<open>(-bound, bound)\<close> with
  \<open>bound = ceil (M * padding)\<close>, where \<open>M\<close> is one running scalar over both columns:
  every absolute value of a coordinate that is not NaN is at most \<open>M\<close>, and \<open>M\<close> is one
  of these absolute values, or \<open>0.0\<close> when every coordinate is NaN.
\<close>

theorem calculate_limits_cpp_max_abs:
  assumes "rows vertices \<noteq> []"
  shows "\<exists>M. calculate_limits_cpp vertices padding
               = [fneg (fceil (fmul M padding)), fceil (fmul M padding)]
           \<and> (\<forall>a\<in>abs_values (rows vertices). a \<noteq> NaN \<longrightarrow> fle a M)
           \<and> (M \<in> abs_values (rows vertices) \<and> M \<noteq> NaN
              \<or> M = Finite 0 \<and> abs_values (rows vertices) \<subseteq> {NaN})"
proof -
  have "calculate_limits_cpp vertices padding
      = [fneg (fceil (fmul (limits_loop (rows vertices) (Finite 0)) padding)),
         fceil (fmul (limits_loop (rows vertices) (Finite 0)) padding)]"
    using assms by (simp add: calculate_limits_cpp_def Let_def)
  then show ?thesis
    using limits_loop_max(2,3) [of "rows vertices"] by blast
qed

lemma round_mag_5: "round_mag 5 = Some 5"
  using round_mag_of_int [of 5] by simp

lemma fmul_5_1: "fmul (Finite 5) (Finite 1) = Finite 5"
  by (simp add: fmul_def is_finite_def fround_def round_mag_5 mk_finite_def)

lemma limits_example:
  "calculate_limits_cpp
     \<lparr>rows = [(Finite 3, Finite 4), (Finite (- 5), Finite 1)], colnames = []\<rparr> (Finite 1)
   = [Finite (- 5), Finite 5]"
  by (simp add: calculate_limits_cpp_def fgt_def is_finite_def fmul_5_1)

theorem calculate_limits_cpp_max_abs_witness:
  "rows \<lparr>rows = [(Finite 3, Finite 4), (Finite (- 5), Finite 1)], colnames = []\<rparr> \<noteq> []
   \<and> calculate_limits_cpp
       \<lparr>rows = [(Finite 3, Finite 4), (Finite (- 5), Finite 1)], colnames = []\<rparr> (Finite 1)
     = [Finite (- 5), Finite 5]
   \<and> (\<exists>M. [Finite (- 5), Finite 5]
               = [fneg (fceil (fmul M (Finite 1))), fceil (fmul M (Finite 1))]
         \<and> (\<forall>a\<in>abs_values [(Finite 3, Finite 4), (Finite (- 5), Finite 1)].
               a \<noteq> NaN \<longrightarrow> fle a M)
         \<and> (M \<in> abs_values [(Finite 3, Finite 4), (Finite (- 5), Finite 1)] \<and> M \<noteq> NaN
            \<or> M = Finite 0
              \<and> abs_values [(Finite 3, Finite 4), (Finite (- 5), Finite 1)] \<subseteq> {NaN}))"
  using calculate_limits_cpp_max_abs
    [of "\<lparr>rows = [(Finite 3, Finite 4), (Finite (- 5), Finite 1)], colnames = []\<rparr>"
      "Finite 1"]
  by (simp add: limits_example)

text \<open>
  C2 as written fails when every coordinate is NaN: the only absolute value is then
  \<open>|NaN|\<close>, whose padded ceiling is NaN, and the code returns \<open>(-0.0, 0.0)\<close>.
\<close>

theorem calculate_limits_cpp_all_nan_counterexample:
  "calculate_limits_cpp \<lparr>rows = [(NaN, NaN)], colnames = []\<rparr> (Finite 1)
     \<noteq> [fneg (fceil (fmul (fabs NaN) (Finite 1))), fceil (fmul (fabs NaN) (Finite 1))]"
  by (simp add: calculate_limits_cpp_def Let_def fmul_def is_finite_def fround_def
      round_mag_def mk_finite_def signed_zero_def)

subsection \<open>Order independence\<close>

lemma limits_loop_set_cong:
  assumes "set vs = set ws"
  shows "limits_loop vs (Finite 0) = limits_loop ws (Finite 0)"
proof -
  have V: "abs_values vs = abs_values ws"
    using assms by (simp add: abs_values_def)
  note a = limits_loop_max [of vs] and b = limits_loop_max [of ws, folded V]
  let ?A = "limits_loop vs (Finite 0)" and ?B = "limits_loop ws (Finite 0)"
  show ?thesis
  proof (cases "abs_values vs \<subseteq> {NaN}")
    case True
    then show ?thesis using a(3) b(3) by auto
  next
    case False
    then have "?A \<in> abs_values vs \<and> ?A \<noteq> NaN" "?B \<in> abs_values vs \<and> ?B \<noteq> NaN"
      using a(3) b(3) by auto
    then have "fle ?A ?B" "fle ?B ?A"
      using a(2) b(2) by auto
    then show ?thesis using a(1) b(1) by (intro fle_antisym_abs)
  qed
qed

text \<open>
  C8. \<open>calculate_limits_cpp\<close> is order-independent: two point sequences that are
  permutations of each other (equal as multisets of rows) give the same result for every
  padding; and duplicates do not matter: two sequences with the same set of rows give the
  same result.
\<close>

theorem calculate_limits_cpp_order_independent:
  "(mset (rows a) = mset (rows b) \<longrightarrow>
      calculate_limits_cpp a padding = calculate_limits_cpp b padding)
   \<and> (set (rows a) = set (rows b) \<longrightarrow>
      calculate_limits_cpp a padding = calculate_limits_cpp b padding)"
proof -
  have "calculate_limits_cpp a padding = calculate_limits_cpp b padding"
    if "set (rows a) = set (rows b)"
  proof -
    from that have "rows a = [] \<longleftrightarrow> rows b = []"
      by (metis set_empty)
    then show ?thesis
      using limits_loop_set_cong [OF that] by (simp add: calculate_limits_cpp_def)
  qed
  then show ?thesis by (auto dest: mset_eq_setD)
qed

theorem calculate_limits_cpp_order_independent_witness:
  "mset (rows \<lparr>rows = [(Finite 3, Finite 4), (Finite (- 5), Finite 1)], colnames = []\<rparr>)
     = mset (rows \<lparr>rows = [(Finite (- 5), Finite 1), (Finite 3, Finite 4)], colnames = []\<rparr>)
   \<and> calculate_limits_cpp
       \<lparr>rows = [(Finite 3, Finite 4), (Finite (- 5), Finite 1)], colnames = []\<rparr> (Finite 1)
     = calculate_limits_cpp
       \<lparr>rows = [(Finite (- 5), Finite 1), (Finite 3, Finite 4)], colnames = []\<rparr> (Finite 1)
   \<and> set (rows \<lparr>rows = [(Finite 3, Finite 4), (Finite 3, Finite 4)], colnames = []\<rparr>)
     = set (rows \<lparr>rows = [(Finite 3, Finite 4)], colnames = []\<rparr>)
   \<and> calculate_limits_cpp
       \<lparr>rows = [(Finite 3, Finite 4), (Finite 3, Finite 4)], colnames = []\<rparr> (Finite 1)
     = calculate_limits_cpp \<lparr>rows = [(Finite 3, Finite 4)], colnames = []\<rparr> (Finite 1)"
  using calculate_limits_cpp_order_independent
    [of "\<lparr>rows = [(Finite 3, Finite 4), (Finite (- 5), Finite 1)], colnames = []\<rparr>"
      "\<lparr>rows = [(Finite (- 5), Finite 1), (Finite 3, Finite 4)], colnames = []\<rparr>"
      "Finite 1"]
    calculate_limits_cpp_order_independent
    [of "\<lparr>rows = [(Finite 3, Finite 4), (Finite 3, Finite 4)], colnames = []\<rparr>"
      "\<lparr>rows = [(Finite 3, Finite 4)], colnames = []\<rparr>"
      "Finite 1"]
  by simp

subsection \<open>Symmetry and sign of the bounds\<close>

lemma round_half_even_nonneg: "0 \<le> n \<Longrightarrow> 0 \<le> round_half_even n"
  by (auto simp: round_half_even_def Let_def)

lemma round_mag_nonneg:
  assumes "0 \<le> q" and "round_mag q = Some m"
  shows "0 \<le> m"
proof (cases "q = 0")
  case True
  then show ?thesis using assms by (simp add: round_mag_def)
next
  case False
  define ulp :: rat where "ulp = 2 powi (max (floor_log2 q) (- 1022) - 52)"
  have ulp: "0 < ulp" by (simp add: ulp_def)
  then have "0 \<le> q / ulp" using assms(1) by simp
  then have "0 \<le> round_half_even (q / ulp)" by (rule round_half_even_nonneg)
  then have "0 \<le> of_int (round_half_even (q / ulp)) * ulp" using ulp by simp
  moreover have "m = of_int (round_half_even (q / ulp)) * ulp"
    using assms(2) False by (simp add: round_mag_def Let_def ulp_def split: if_splits)
  ultimately show ?thesis by simp
qed

lemma is_abs_fround: "0 \<le> q \<Longrightarrow> is_abs (fround False q)"
  by (auto simp: fround_def is_abs_def infinity_def mk_finite_def signed_zero_def
      split: option.splits dest: round_mag_nonneg)

lemma fround_True_zero: "fround True 0 = NegZero"
  by (simp add: fround_def round_mag_def mk_finite_def signed_zero_def)

lemma fmul_abs_nonneg:
  assumes "is_abs m" and "fle (Finite 0) p"
  shows "fmul m p = NaN \<or> fmul m p = NegZero \<or> is_abs (fmul m p)"
proof -
  from assms(2) consider "p = PInf" | "p = NegZero" | r where "p = Finite r" "0 \<le> r"
    by (cases p) (auto simp: fle_def fgt_def is_finite_def)
  then show ?thesis
  proof cases
    case 1
    then show ?thesis using assms(1)
      by (auto simp: is_abs_def fmul_def is_finite_def is_zero_def infinity_def)
  next
    case 2
    then show ?thesis using assms(1)
      by (auto simp: is_abs_def fmul_def is_finite_def is_zero_def fround_True_zero)
  next
    case 3
    from assms(1) consider "m = PInf" | s where "m = Finite s" "0 \<le> s"
      by (auto simp: is_abs_def)
    then show ?thesis
    proof cases
      case 1
      then show ?thesis using 3
        by (simp add: fmul_def is_finite_def is_zero_def infinity_def is_abs_def)
    next
      case 2
      then show ?thesis using 3
        by (simp add: fmul_def is_finite_def is_abs_fround)
    qed
  qed
qed

lemma fmul_abs_pos:
  assumes "is_abs m" and "fgt p (Finite 0)" and "p \<noteq> PInf"
  shows "is_abs (fmul m p)"
proof -
  from assms(2,3) obtain r where p: "p = Finite r" "0 < r"
    by (cases p) (auto simp: fgt_def is_finite_def)
  from assms(1) show ?thesis
    unfolding is_abs_def [of m]
  proof (elim disjE exE conjE)
    assume "m = PInf"
    then show ?thesis using p
      by (simp add: fmul_def is_finite_def is_zero_def infinity_def is_abs_def)
  next
    fix s assume "0 \<le> s" "m = Finite s"
    then show ?thesis using p
      by (simp add: fmul_def is_finite_def is_abs_fround)
  qed
qed

lemma fle_zero_fceil:
  assumes "u = NegZero \<or> is_abs u"
  shows "fle (Finite 0) (fceil u)"
  using assms
  by (auto simp: is_abs_def fle_def fgt_def is_finite_def)

text \<open>
  C3. For a matrix with zero rows and any padding, \<open>calculate_limits_cpp\<close> returns
  exactly the fixed pair \<open>(-10.0, 10.0)\<close>.
\<close>

theorem calculate_limits_cpp_empty:
  "calculate_limits_cpp \<lparr>rows = [], colnames = names\<rparr> padding = [Finite (- 10), Finite 10]"
  by (simp add: calculate_limits_cpp_def)

text \<open>
  C5 (as amended). For every point sequence and every padding, the lower bound is the
  negation of the upper bound. The upper bound is at least 0 when the padding is
  positive and finite; when the padding is at least 0 (the zeros and the positive
  infinity included), the upper bound is at least 0 or NaN (a product of zero and
  infinity).
\<close>

theorem calculate_limits_cpp_symmetric:
  "\<exists>u. calculate_limits_cpp vertices padding = [fneg u, u]
     \<and> (fle (Finite 0) padding \<longrightarrow> u = NaN \<or> fle (Finite 0) u)
     \<and> (fgt padding (Finite 0) \<and> padding \<noteq> PInf \<longrightarrow> fle (Finite 0) u)"
proof (cases "rows vertices = []")
  case True
  then have "calculate_limits_cpp vertices padding = [fneg (Finite 10), Finite 10]"
    by (simp add: calculate_limits_cpp_def)
  moreover have "fle (Finite 0) (Finite 10)"
    by (simp add: fle_def fgt_def is_finite_def)
  ultimately show ?thesis by blast
next
  case False
  define M where "M = limits_loop (rows vertices) (Finite 0)"
  define u where "u = fceil (fmul M padding)"
  have M: "is_abs M" unfolding M_def by (rule limits_loop_max(1))
  have res: "calculate_limits_cpp vertices padding = [fneg u, u]"
    using False by (simp add: calculate_limits_cpp_def Let_def u_def M_def)
  have "u = NaN \<or> fle (Finite 0) u" if "fle (Finite 0) padding"
  proof -
    from fmul_abs_nonneg [OF M that] consider "fmul M padding = NaN"
      | "fmul M padding = NegZero \<or> is_abs (fmul M padding)" by blast
    then show ?thesis
    proof cases
      case 1 then show ?thesis by (simp add: u_def)
    next
      case 2
      then have "fle (Finite 0) (fceil (fmul M padding))" by (rule fle_zero_fceil)
      then show ?thesis by (simp add: u_def)
    qed
  qed
  moreover have "fle (Finite 0) u" if "fgt padding (Finite 0) \<and> padding \<noteq> PInf"
  proof -
    have "is_abs (fmul M padding)" using M that by (intro fmul_abs_pos) simp_all
    then have "fle (Finite 0) (fceil (fmul M padding))" by (intro fle_zero_fceil disjI2)
    then show ?thesis by (simp add: u_def)
  qed
  ultimately show ?thesis using res by blast
qed

theorem calculate_limits_cpp_symmetric_witness:
  "fle (Finite 0) (Finite 1) \<and> fgt (Finite 1) (Finite 0) \<and> Finite 1 \<noteq> PInf
   \<and> (\<exists>u. calculate_limits_cpp
              \<lparr>rows = [(Finite 3, Finite 4), (Finite (- 5), Finite 1)], colnames = []\<rparr>
              (Finite 1) = [fneg u, u]
         \<and> fle (Finite 0) u)"
proof -
  have h: "fle (Finite 0) (Finite 1)" "fgt (Finite 1) (Finite 0) \<and> Finite 1 \<noteq> PInf"
    by (simp_all add: fle_def fgt_def is_finite_def)
  with calculate_limits_cpp_symmetric
    [of "\<lparr>rows = [(Finite 3, Finite 4), (Finite (- 5), Finite 1)], colnames = []\<rparr>"
      "Finite 1"]
  show ?thesis by blast
qed

text \<open>
  C5 as written fails for a negative padding: the upper bound is then negative.
\<close>

lemma round_mag_2: "round_mag 2 = Some 2"
  using round_mag_of_int [of 2] by simp

theorem calculate_limits_cpp_negative_padding_counterexample:
  "calculate_limits_cpp \<lparr>rows = [(Finite 1, Finite 1)], colnames = []\<rparr> (Finite (- 2))
     = [Finite 2, Finite (- 2)]
   \<and> \<not> fle (Finite 0) (Finite (- 2))"
  by (simp add: calculate_limits_cpp_def fgt_def fle_def is_finite_def fmul_def fround_def
      round_mag_2 mk_finite_def)

subsection \<open>NaN coordinates\<close>

lemma zero_nan_step:
  assumes "is_abs m"
  shows "(if fgt (fabs (zero_nan x)) m then fabs (zero_nan x) else m)
       = (if fgt (fabs x) m then fabs x else m)"
  using assms by (auto simp: zero_nan_def is_abs_def fgt_def is_finite_def)

lemma limits_loop_zero_nan:
  "is_abs m \<Longrightarrow>
     limits_loop (map (\<lambda>(x, y). (zero_nan x, zero_nan y)) vs) m = limits_loop vs m"
proof (induction vs arbitrary: m)
  case Nil
  then show ?case by simp
next
  case (Cons p rest)
  obtain x y where p: "p = (x, y)" by (cases p)
  define m1 where "m1 = (if fgt (fabs x) m then fabs x else m)"
  define m2 where "m2 = (if fgt (fabs y) m1 then fabs y else m1)"
  have m1: "is_abs m1" unfolding m1_def using Cons.prems by (rule max_step(1))
  have m2: "is_abs m2" unfolding m2_def using m1 by (rule max_step(1))
  have s1: "(if fgt (fabs (zero_nan x)) m then fabs (zero_nan x) else m) = m1"
    unfolding m1_def using Cons.prems by (rule zero_nan_step)
  have s2: "(if fgt (fabs (zero_nan y)) m1 then fabs (zero_nan y) else m1) = m2"
    unfolding m2_def using m1 by (rule zero_nan_step)
  have "limits_loop (map (\<lambda>(x, y). (zero_nan x, zero_nan y)) (p # rest)) m
      = limits_loop (map (\<lambda>(x, y). (zero_nan x, zero_nan y)) rest) m2"
    by (simp only: p list.map prod.case limits_loop.simps Let_def s1 s2)
  also have "\<dots> = limits_loop rest m2" using m2 by (rule Cons.IH)
  also have "\<dots> = limits_loop (p # rest) m" by (simp add: p m1_def m2_def)
  finally show ?case .
qed

text \<open>
  C6 (as amended). \<open>calculate_limits_cpp\<close> has no failure path: it always returns a
  vector of two elements. NaN coordinates do not propagate: the comparison with the
  running maximum is false for a NaN, so the running maximum is never NaN, and the result
  is the one for the same points with every NaN coordinate replaced by \<open>0.0\<close>.
\<close>

theorem calculate_limits_cpp_skips_nan:
  "calculate_limits_cpp
     (vertices\<lparr>rows := map (\<lambda>(x, y). (zero_nan x, zero_nan y)) (rows vertices)\<rparr>) padding
     = calculate_limits_cpp vertices padding
   \<and> limits_loop (rows vertices) (Finite 0) \<noteq> NaN
   \<and> length (calculate_limits_cpp vertices padding) = 2"
proof -
  have "limits_loop (rows vertices) (Finite 0) \<noteq> NaN"
    using limits_loop_max(1) [of "rows vertices"] by (rule is_abs_not_NaN)
  then show ?thesis
    by (simp add: calculate_limits_cpp_def Let_def limits_loop_zero_nan is_abs_zero)
qed

text \<open>
  C6 as written fails on a point with a NaN coordinate: the result is not affected by
  the NaN and is the one of the point \<open>(1, 1)\<close>.
\<close>

lemma round_mag_1: "round_mag 1 = Some 1"
  using round_mag_of_int [of 1] by simp

theorem calculate_limits_cpp_nan_ignored_counterexample:
  "calculate_limits_cpp \<lparr>rows = [(NaN, Finite 1)], colnames = []\<rparr> (Finite 1)
     = [Finite (- 1), Finite 1]"
  by (simp add: calculate_limits_cpp_def fgt_def is_finite_def fmul_def fround_def
      round_mag_1 mk_finite_def)

section \<open>Properties of the spiral generation\<close>

lemma length_spiral_loop:
  "length (spiral_loop lm angle_start step num_points i points) = length points"
proof (induction lm angle_start step num_points i points rule: spiral_loop.induct)
  case (1 lm angle_start step num_points i points)
  show ?case
  proof (cases "i < num_points")
    case True
    then show ?thesis
      using "1.IH" [OF True refl refl] by (subst spiral_loop.simps) (simp add: Let_def)
  next
    case False
    then show ?thesis by (subst spiral_loop.simps) simp
  qed
qed

lemma spiral_loop_below:
  "0 \<le> j \<Longrightarrow> j < i \<Longrightarrow>
     spiral_loop lm angle_start step num_points i points ! nat j = points ! nat j"
proof (induction lm angle_start step num_points i points rule: spiral_loop.induct)
  case (1 lm angle_start step num_points i points)
  show ?case
  proof (cases "i < num_points")
    case True
    have "nat j \<noteq> nat i" using "1.prems" by simp
    then show ?thesis
      using "1.IH" [OF True refl refl] "1.prems"
      by (subst spiral_loop.simps) (simp add: Let_def)
  next
    case False
    then show ?thesis by (subst spiral_loop.simps) simp
  qed
qed

lemma spiral_loop_nth:
  "0 \<le> i \<Longrightarrow> i \<le> j \<Longrightarrow> j < num_points \<Longrightarrow> num_points \<le> int (length points) \<Longrightarrow>
     spiral_loop lm angle_start step num_points i points ! nat j
       = (let theta = fadd angle_start (fmul (Finite (of_int j)) step);
              sqrt_theta = fsqrt theta
          in (fmul sqrt_theta (std_cos lm theta), fmul sqrt_theta (std_sin lm theta)))"
proof (induction lm angle_start step num_points i points rule: spiral_loop.induct)
  case (1 lm angle_start step num_points i points)
  have lt: "i < num_points" using "1.prems" by simp
  define p where "p = (let theta = fadd angle_start (fmul (Finite (of_int i)) step);
              sqrt_theta = fsqrt theta
          in (fmul sqrt_theta (std_cos lm theta), fmul sqrt_theta (std_sin lm theta)))"
  have unfold: "spiral_loop lm angle_start step num_points i points
      = spiral_loop lm angle_start step num_points (i + 1) (points[nat i := p])"
    using lt by (subst spiral_loop.simps) (simp add: Let_def p_def)
  show ?case
  proof (cases "j = i")
    case True
    have "spiral_loop lm angle_start step num_points (i + 1) (points[nat i := p]) ! nat i
        = points[nat i := p] ! nat i"
      using "1.prems" by (intro spiral_loop_below) simp_all
    also have "\<dots> = p" using "1.prems" by simp
    finally have "spiral_loop lm angle_start step num_points i points ! nat j = p"
      by (simp only: unfold True)
    then show ?thesis by (simp only: p_def True)
  next
    case False
    then have "i + 1 \<le> j" using "1.prems" by simp
    moreover have "num_points \<le> int (length (points[nat i := p]))" using "1.prems" by simp
    ultimately show ?thesis
      using "1.IH" [OF lt refl refl] "1.prems" by (simp add: unfold p_def Let_def)
  qed
qed

lemma sint_minus_1:
  assumes "1 \<le> sint (n :: 32 word)"
  shows "sint (n - 1) = sint n - 1"
proof -
  have "sint (n - 1) = signed_take_bit 31 (sint n - 1)"
    by (simp add: sint_word_ariths)
  also have "\<dots> = sint n - 1"
    using assms sint_lt [of n] by (intro signed_take_bit_int_eq_self) simp_all
  finally show ?thesis .
qed

lemma generate_spiral_cpp_rows:
  assumes "0 \<le> sint num_points"
  shows "generate_spiral_cpp lm angle_start angle_end num_points
     = Inr \<lparr>rows = spiral_loop lm angle_start
                  (fdiv (fsub angle_end angle_start) (of_int32 (num_points - 1)))
                  (sint num_points) 0
                  (replicate (nat (sint num_points)) (Finite 0, Finite 0)),
            colnames = [''x'', ''y'']\<rparr>"
  using assms by (simp add: generate_spiral_cpp_def Let_def)

text \<open>
  C7. For every \<open>num_points \<ge> 2\<close> and all angles (finite or not),
  \<open>generate_spiral_cpp\<close> returns a matrix of exactly \<open>num_points\<close> rows, each a pair of
  coordinates, with the columns named \<open>x\<close> and \<open>y\<close>.
\<close>

theorem generate_spiral_cpp_shape:
  assumes "2 \<le> sint num_points"
  shows "\<exists>m. generate_spiral_cpp lm angle_start angle_end num_points = Inr m
           \<and> length (rows m) = nat (sint num_points)
           \<and> colnames m = [''x'', ''y'']"
proof -
  have "0 \<le> sint num_points" using assms by simp
  then show ?thesis
    by (simp add: generate_spiral_cpp_rows length_spiral_loop)
qed

theorem generate_spiral_cpp_shape_witness:
  "2 \<le> sint (3 :: 32 word)
   \<and> (\<exists>m. generate_spiral_cpp \<lparr>std_cos = (\<lambda>x. Finite 1), std_sin = (\<lambda>x. Finite 0)\<rparr>
              (Finite 0) (Finite 6) 3 = Inr m
         \<and> length (rows m) = 3 \<and> colnames m = [''x'', ''y''])"
  using generate_spiral_cpp_shape
    [of 3 "\<lparr>std_cos = (\<lambda>x. Finite 1), std_sin = (\<lambda>x. Finite 0)\<rparr>" "Finite 0" "Finite 6"]
  by simp

lemma fmul_NaN [simp]: "fmul NaN x = NaN"
  by (simp add: fmul_def)

lemma fsqrt_negative: "flt theta (Finite 0) \<Longrightarrow> fsqrt theta = NaN"
  by (cases theta) (simp_all add: flt_def fgt_def is_finite_def)

text \<open>
  C1. For every \<open>num_points \<ge> 2\<close> and all angles, with
  \<open>step = (angle_end - angle_start) / (num_points - 1)\<close> in double arithmetic, every row
  \<open>i < num_points\<close> of the result is
  \<open>(sqrt theta * cos theta, sqrt theta * sin theta)\<close> for
  \<open>theta = angle_start + i * step\<close>; and when \<open>theta\<close> is negative (\<open>theta < 0\<close>, which
  the negative zero is not) both coordinates of the row are NaN.
\<close>

theorem generate_spiral_cpp_rows_formula:
  assumes "2 \<le> sint num_points" and "i < nat (sint num_points)"
  shows "\<exists>m. generate_spiral_cpp lm angle_start angle_end num_points = Inr m
     \<and> (let step = fdiv (fsub angle_end angle_start) (Finite (of_int (sint num_points - 1)));
             theta = fadd angle_start (fmul (Finite (of_nat i)) step)
         in rows m ! i = (fmul (fsqrt theta) (std_cos lm theta),
                          fmul (fsqrt theta) (std_sin lm theta))
            \<and> (flt theta (Finite 0) \<longrightarrow> rows m ! i = (NaN, NaN)))"
proof -
  define step where "step = fdiv (fsub angle_end angle_start) (of_int32 (num_points - 1))"
  define theta where "theta = fadd angle_start (fmul (Finite (of_nat i)) step)"
  define pts where "pts = spiral_loop lm angle_start step (sint num_points) 0
                  (replicate (nat (sint num_points)) (Finite 0, Finite 0))"
  have n: "0 \<le> sint num_points" "1 \<le> sint num_points" using assms(1) by simp_all
  have step: "step = fdiv (fsub angle_end angle_start) (Finite (of_int (sint num_points - 1)))"
    by (simp add: step_def of_int32_def sint_minus_1 [OF n(2)])
  have gen: "generate_spiral_cpp lm angle_start angle_end num_points
      = Inr \<lparr>rows = pts, colnames = [''x'', ''y'']\<rparr>"
    unfolding pts_def step_def using n(1) by (rule generate_spiral_cpp_rows)
  have "pts ! nat (int i)
      = (let theta = fadd angle_start (fmul (Finite (of_int (int i))) step);
             sqrt_theta = fsqrt theta
         in (fmul sqrt_theta (std_cos lm theta), fmul sqrt_theta (std_sin lm theta)))"
    unfolding pts_def using assms(2) n(1) by (intro spiral_loop_nth) simp_all
  then have row: "pts ! i = (fmul (fsqrt theta) (std_cos lm theta),
                             fmul (fsqrt theta) (std_sin lm theta))"
    by (simp add: Let_def theta_def)
  have nan: "pts ! i = (NaN, NaN)" if "flt theta (Finite 0)"
    using that row by (simp add: fsqrt_negative)
  have th: "fadd angle_start (fmul (Finite (of_nat i))
      (fdiv (fsub angle_end angle_start) (Finite (of_int (sint num_points - 1))))) = theta"
    by (simp only: theta_def step)
  show ?thesis
    unfolding Let_def th gen using row nan by simp
qed

lemma theta_example:
  "fadd (Finite 2)
     (fmul (Finite 1) (fdiv (fsub (Finite (- 6)) (Finite 2)) (Finite 2))) = Finite (- 2)"
  using round_mag_of_int [of 8] round_mag_of_int [of 4] round_mag_of_int [of 2]
  by (simp add: fsub_def fadd_def fdiv_def fmul_def is_finite_def is_zero_def fround_def
      mk_finite_def)

theorem generate_spiral_cpp_rows_formula_witness:
  "2 \<le> sint (3 :: 32 word) \<and> (1 :: nat) < nat (sint (3 :: 32 word))
   \<and> flt (Finite (- 2)) (Finite 0)
   \<and> (\<exists>m. generate_spiral_cpp \<lparr>std_cos = (\<lambda>x. Finite 1), std_sin = (\<lambda>x. Finite 0)\<rparr>
              (Finite 2) (Finite (- 6)) 3 = Inr m
         \<and> rows m ! 1 = (fmul (fsqrt (Finite (- 2))) (Finite 1),
                          fmul (fsqrt (Finite (- 2))) (Finite 0))
         \<and> rows m ! 1 = (NaN, NaN))"
proof -
  have h: "2 \<le> sint (3 :: 32 word)" "(1 :: nat) < nat (sint (3 :: 32 word))"
    by simp_all
  have neg: "flt (Finite (- 2)) (Finite 0)"
    by (simp add: flt_def fgt_def is_finite_def)
  show ?thesis
    using generate_spiral_cpp_rows_formula [OF h,
        of "\<lparr>std_cos = (\<lambda>x. Finite 1), std_sin = (\<lambda>x. Finite 0)\<rparr>" "Finite 2" "Finite (- 6)"]
      h neg
    by (simp add: Let_def theta_example)
qed

lemma fround_not_NaN: "fround s q \<noteq> NaN"
  by (simp add: fround_def infinity_def mk_finite_def signed_zero_def split: option.splits)

lemma is_finite_fneg: "is_finite b \<Longrightarrow> is_finite (fneg b)"
  by (cases b) (simp_all add: is_finite_def)

lemma fsub_finite_not_NaN:
  assumes "is_finite a" and "is_finite b"
  shows "fsub a b \<noteq> NaN"
proof -
  have "is_finite (fneg b)" using assms(2) by (rule is_finite_fneg)
  moreover have "a \<noteq> NaN" "fneg b \<noteq> NaN"
    using assms(1) calculation by (auto simp: is_finite_def)
  ultimately show ?thesis
    using assms(1) by (simp add: fsub_def fadd_def Let_def signed_zero_def fround_not_NaN)
qed

lemma fdiv_zero: "fdiv x (Finite 0) \<in> {NaN, PInf, NInf}"
  by (cases x) (simp_all add: fdiv_def is_finite_def is_zero_def infinity_def)

lemma fmul_zero_nonfinite: "s \<in> {NaN, PInf, NInf} \<Longrightarrow> fmul (Finite 0) s = NaN"
  by (auto simp: fmul_def is_finite_def is_zero_def)

lemma fadd_NaN [simp]: "fadd a NaN = NaN"
  by (simp add: fadd_def)

lemma fsqrt_NaN: "fsqrt NaN = NaN"
  by simp

text \<open>
  C10. For \<open>num_points = 1\<close> and all angles, \<open>generate_spiral_cpp\<close> does not fail: it
  returns the single row \<open>(NaN, NaN)\<close>. The step is a division by
  \<open>num_points - 1 = 0\<close>: for finite
  angles it is NaN when their difference is zero (as it is for
  \<open>angle_start = angle_end\<close>) and an infinity otherwise; and
  \<open>theta = angle_start + 0 * step\<close> is NaN.
\<close>

theorem generate_spiral_cpp_one_point:
  "generate_spiral_cpp lm angle_start angle_end 1
     = Inr \<lparr>rows = [(NaN, NaN)], colnames = [''x'', ''y'']\<rparr>
   \<and> fdiv (fsub angle_end angle_start) (of_int32 0) \<in> {NaN, PInf, NInf}
   \<and> fadd angle_start
        (fmul (Finite 0) (fdiv (fsub angle_end angle_start) (of_int32 0))) = NaN
   \<and> (is_finite angle_start \<and> is_finite angle_end \<longrightarrow>
        (if is_zero (fsub angle_end angle_start)
         then fdiv (fsub angle_end angle_start) (of_int32 0) = NaN
         else fdiv (fsub angle_end angle_start) (of_int32 0) \<in> {PInf, NInf}))
   \<and> (is_finite angle_start \<longrightarrow> is_zero (fsub angle_start angle_start))"
proof -
  define step where "step = fdiv (fsub angle_end angle_start) (of_int32 0)"
  have step: "step \<in> {NaN, PInf, NInf}"
    unfolding step_def of_int32_def using fdiv_zero [of "fsub angle_end angle_start"] by simp
  then have mul: "fmul (Finite 0) step = NaN" by (rule fmul_zero_nonfinite)
  then have theta: "fadd angle_start (fmul (Finite 0) step) = NaN" by simp
  have "spiral_loop lm angle_start step 1 0 [(Finite 0, Finite 0)] = [(NaN, NaN)]"
    by (subst spiral_loop.simps, subst spiral_loop.simps) (simp add: mul)
  then have gen: "generate_spiral_cpp lm angle_start angle_end 1
     = Inr \<lparr>rows = [(NaN, NaN)], colnames = [''x'', ''y'']\<rparr>"
    by (simp add: generate_spiral_cpp_def step_def)
  have fin: "if is_zero (fsub angle_end angle_start) then step = NaN
      else step \<in> {PInf, NInf}"
    if "is_finite angle_start \<and> is_finite angle_end"
  proof -
    have "fsub angle_end angle_start \<noteq> NaN"
      using that by (simp add: fsub_finite_not_NaN)
    then show ?thesis
      by (cases "fsub angle_end angle_start")
        (simp_all add: step_def of_int32_def fdiv_def is_finite_def is_zero_def infinity_def)
  qed
  have same: "is_zero (fsub angle_start angle_start)" if "is_finite angle_start"
    using that
    by (cases angle_start)
      (simp_all add: is_finite_def fsub_def fadd_def is_zero_def signed_zero_def)
  show ?thesis
    unfolding step_def [symmetric] using gen step theta fin same by (intro conjI impI)
qed

theorem generate_spiral_cpp_one_point_witness:
  "is_finite (Finite 1)
   \<and> is_zero (fsub (Finite 1) (Finite 1))
   \<and> fdiv (fsub (Finite 1) (Finite 1)) (of_int32 0) = NaN
   \<and> generate_spiral_cpp \<lparr>std_cos = (\<lambda>x. Finite 1), std_sin = (\<lambda>x. Finite 0)\<rparr>
        (Finite 1) (Finite 1) 1
     = Inr \<lparr>rows = [(NaN, NaN)], colnames = [''x'', ''y'']\<rparr>"
  using generate_spiral_cpp_one_point
    [of "\<lparr>std_cos = (\<lambda>x. Finite 1), std_sin = (\<lambda>x. Finite 0)\<rparr>" "Finite 1" "Finite 1"]
  by (simp add: is_finite_def)

end
